theory Spec2Isabelle
  imports Main "HOL-Library.Sublist" "HOL-Library.AList"
begin


section \<open>Strings, names and paths\<close>

text \<open>
  A Python \<open>str\<close> is modelled as a \<open>string\<close>, one \<open>char\<close> per character, so that
  \<open>length\<close> is Python's \<open>len\<close>. The seven box-drawing characters of the decorated directory
  names lie outside ASCII; each is written as the single \<open>char\<close> whose code it has in code
  page 437. \<open>lower\<close> is \<open>str.lower\<close> on the ASCII letters and leaves every other character
  as it is. A \<open>pathlib.Path\<close> below \<open>root_dir\<close> is the list of its components.
\<close>

type_synonym path = "string list"

definition lower_char :: "char \<Rightarrow> char" where
  "lower_char c =
     (case map_of (zip ''ABCDEFGHIJKLMNOPQRSTUVWXYZ'' ''abcdefghijklmnopqrstuvwxyz'') c of
        Some l \<Rightarrow> l
      | None \<Rightarrow> c)"

definition lower :: "string \<Rightarrow> string" where
  "lower s = map lower_char s"

text \<open>\<open>contains k s\<close> is Python's \<open>k in s\<close> on strings.\<close>

fun contains :: "string \<Rightarrow> string \<Rightarrow> bool" where
  "contains k [] = (k = [])"
| "contains k (c # s) = (prefix k (c # s) \<or> contains k s)"

text \<open>\<open>Path.name\<close>, \<open>Path.parent\<close> and \<open>Path.relative_to\<close>.\<close>

definition name_of :: "path \<Rightarrow> string" where
  "name_of p = (if p = [] then [] else last p)"

definition parent :: "path \<Rightarrow> path" where
  "parent p = butlast p"

datatype error =
    ValueError | FileNotFoundError | FileExistsError | NotADirectoryError
  | IsADirectoryError | DirectoryNotEmpty | InvalidArgument | ShutilError

definition relative_to :: "path \<Rightarrow> path \<Rightarrow> error + path" where
  "relative_to p base =
     (if prefix base p then Inr (drop (length base) p) else Inl ValueError)"

section \<open>The category table\<close>

definition box_dr :: char where "box_dr = CHR 0xC9"
definition box_h :: char where "box_h = CHR 0xCD"
definition box_dl :: char where "box_dl = CHR 0xBB"
definition box_vr :: char where "box_vr = CHR 0xCC"
definition box_vl :: char where "box_vl = CHR 0xB9"
definition box_ur :: char where "box_ur = CHR 0xC8"
definition box_ul :: char where "box_ul = CHR 0xBC"

definition decorate :: "char \<Rightarrow> string \<Rightarrow> char \<Rightarrow> string" where
  "decorate l s r = [l, box_h, box_h, box_h] @ '' '' @ s @ '' '' @ [box_h, box_h, box_h, r]"

definition SUBDIR_MAPPINGS :: "(string \<times> string) list" where
  "SUBDIR_MAPPINGS =
    [(''01_GETTING_STARTED'', decorate box_dr ''GETTING_STARTED'' box_dl),
     (''02_ARCHITECTURE'', decorate box_vr ''ARCHITECTURE'' box_vl),
     (''03_DEVELOPMENT'', decorate box_vr ''DEVELOPMENT'' box_vl),
     (''04_DEPLOYMENT'', decorate box_vr ''DEPLOYMENT'' box_vl),
     (''05_SECURITY'', decorate box_vr ''SECURITY'' box_vl),
     (''06_API_REFERENCE'', decorate box_vr ''API_REFERENCE'' box_vl),
     (''07_SERVICES'', decorate box_vr ''SERVICES'' box_vl),
     (''08_TESTING'', decorate box_vr ''TESTING'' box_vl),
     (''09_AUDITS_AND_REPORTS'', decorate box_vr ''AUDITS_AND_REPORTS'' box_vl),
     (''10_GUIDES_AND_TUTORIALS'', decorate box_vr ''GUIDES_AND_TUTORIALS'' box_vl),
     (''11_MIGRATION_GUIDES'', decorate box_vr ''MIGRATION_GUIDES'' box_vl),
     (''12_REFERENCE'', decorate box_ur ''REFERENCE'' box_ul)]"

text \<open>\<open>SUBDIR_MAPPINGS[key]\<close> for a key of the table.\<close>

definition subdir :: "string \<Rightarrow> string" where
  "subdir key = (case map_of SUBDIR_MAPPINGS key of Some v \<Rightarrow> v | None \<Rightarrow> [])"

section \<open>The classifier\<close>

text \<open>
  \<open>map_file_to_category\<close>: \<open>relative_to\<close> raises \<open>ValueError\<close> when the file is not below
  \<open>docs_dir\<close>; otherwise the two chains of tests run in the order of the source. The name
  of \<open>Path('.')\<close> is the empty string, so the first test of the source reduces to
  \<open>dir_name = ''''\<close> or \<open>dir_name = ''.''\<close>.
\<close>

definition root_level_category :: "string \<Rightarrow> string" where
  "root_level_category file_name =
     (if contains ''getting_started'' file_name \<or> contains ''setup'' file_name
          \<or> contains ''environment'' file_name
      then subdir ''01_GETTING_STARTED''
      else if contains ''architecture'' file_name
      then subdir ''02_ARCHITECTURE''
      else if contains ''development'' file_name \<or> contains ''build'' file_name
          \<or> contains ''storybook'' file_name \<or> contains ''wiki'' file_name
      then subdir ''03_DEVELOPMENT''
      else if contains ''deployment'' file_name
      then subdir ''04_DEPLOYMENT''
      else if contains ''security'' file_name
      then subdir ''05_SECURITY''
      else if contains ''api'' file_name
      then subdir ''06_API_REFERENCE''
      else if contains ''service'' file_name
      then subdir ''07_SERVICES''
      else if contains ''test'' file_name
      then subdir ''08_TESTING''
      else if contains ''audit'' file_name \<or> contains ''cache'' file_name
          \<or> contains ''dead_code'' file_name
      then subdir ''09_AUDITS_AND_REPORTS''
      else if contains ''guide'' file_name \<or> contains ''resend'' file_name
          \<or> contains ''auto_config'' file_name
      then subdir ''10_GUIDES_AND_TUTORIALS''
      else if contains ''migration'' file_name
      then subdir ''11_MIGRATION_GUIDES''
      else if contains ''product'' file_name \<or> contains ''reference'' file_name
          \<or> contains ''scrollbar'' file_name \<or> contains ''analytics'' file_name
          \<or> contains ''cloudflare'' file_name \<or> contains ''chat'' file_name
      then subdir ''12_REFERENCE''
      else subdir ''12_REFERENCE'')"

definition subdir_category :: "string \<Rightarrow> string" where
  "subdir_category dir_name =
     (if dir_name = ''getting-started'' then subdir ''01_GETTING_STARTED''
      else if dir_name = ''architecture'' then subdir ''02_ARCHITECTURE''
      else if dir_name = ''development'' then subdir ''03_DEVELOPMENT''
      else if dir_name = ''deployment'' then subdir ''04_DEPLOYMENT''
      else if dir_name = ''security'' then subdir ''05_SECURITY''
      else if dir_name = ''api'' then subdir ''06_API_REFERENCE''
      else if dir_name = ''services'' then subdir ''07_SERVICES''
      else if dir_name = ''guides'' then subdir ''10_GUIDES_AND_TUTORIALS''
      else if dir_name = ''reference'' then subdir ''12_REFERENCE''
      else subdir ''12_REFERENCE'')"

definition classify :: "string \<Rightarrow> string \<Rightarrow> string" where
  "classify dir_name file_name =
     (if dir_name = ''.'' \<or> dir_name = '''' then root_level_category file_name
      else subdir_category dir_name)"

definition map_file_to_category :: "path \<Rightarrow> path \<Rightarrow> error + string" where
  "map_file_to_category file_path docs_dir =
     (case relative_to file_path docs_dir of
        Inl e \<Rightarrow> Inl e
      | Inr relative_path \<Rightarrow>
          Inr (classify (lower (name_of (parent relative_path)))
                        (lower (name_of relative_path))))"

section \<open>The file system\<close>

text \<open>
  The tree below \<open>root_dir\<close>: a regular file with its content, or a directory with its
  entries in the order \<open>os.scandir\<close> yields them. Symbolic links, permissions and other
  refusals of the operating system are outside the model: an operation fails only for a
  reason that can be read from the tree.
\<close>

datatype node = File string | Dir "(string \<times> node) list"

datatype kind = F string | D

fun lookup :: "node \<Rightarrow> path \<Rightarrow> node option" where
  "lookup n [] = Some n"
| "lookup (File x) (c # cs) = None"
| "lookup (Dir es) (c # cs) =
     (case map_of es c of None \<Rightarrow> None | Some m \<Rightarrow> lookup m cs)"

definition kind_of :: "node \<Rightarrow> kind" where
  "kind_of n = (case n of File x \<Rightarrow> F x | Dir es \<Rightarrow> D)"

definition stat :: "node \<Rightarrow> path \<Rightarrow> kind option" where
  "stat fs p = map_option kind_of (lookup fs p)"

definition exists :: "node \<Rightarrow> path \<Rightarrow> bool" where
  "exists fs p = (lookup fs p \<noteq> None)"

definition is_dir :: "node \<Rightarrow> path \<Rightarrow> bool" where
  "is_dir fs p = (stat fs p = Some D)"

text \<open>\<open>any(p.iterdir())\<close> is false exactly for a directory without entries.\<close>

definition dir_empty :: "node \<Rightarrow> path \<Rightarrow> bool" where
  "dir_empty fs p = (lookup fs p = Some (Dir []))"

text \<open>
  \<open>put fs p v\<close> replaces (\<open>Some\<close>) or unlinks (\<open>None\<close>) the entry at \<open>p\<close>; it leaves the
  tree as it is when the parent of \<open>p\<close> is not a directory.
\<close>

fun put :: "node \<Rightarrow> path \<Rightarrow> node option \<Rightarrow> node" where
  "put n [] v = (case v of None \<Rightarrow> n | Some m \<Rightarrow> m)"
| "put (File x) (c # cs) v = File x"
| "put (Dir es) [c] None = Dir (AList.delete c es)"
| "put (Dir es) [c] (Some m) = Dir (AList.update c m es)"
| "put (Dir es) (c # c' # cs) v =
     (case map_of es c of
        None \<Rightarrow> Dir es
      | Some m \<Rightarrow> Dir (AList.update c (put m (c' # cs) v) es))"

text \<open>
  \<open>os.rename\<close> with the POSIX rules: the source must exist, the parent of the destination
  must be a directory, a directory does not move below itself, and an existing destination
  is replaced when it is a regular file (by a regular file) or an empty directory (by a
  directory).
\<close>

definition os_rename :: "node \<Rightarrow> path \<Rightarrow> path \<Rightarrow> error + node" where
  "os_rename fs src dst =
     (case lookup fs src of
        None \<Rightarrow> Inl FileNotFoundError
      | Some n \<Rightarrow>
          if src = [] \<or> dst = [] then Inl InvalidArgument
          else if src = dst then Inr fs
          else if \<not> exists fs (parent dst) then Inl FileNotFoundError
          else if \<not> is_dir fs (parent dst) then Inl NotADirectoryError
          else if prefix src dst then Inl InvalidArgument
          else (case stat fs dst of
                  None \<Rightarrow> Inr (put (put fs src None) dst (Some n))
                | Some (F x) \<Rightarrow>
                    if kind_of n = D then Inl NotADirectoryError
                    else Inr (put (put fs src None) dst (Some n))
                | Some D \<Rightarrow>
                    if kind_of n \<noteq> D then Inl IsADirectoryError
                    else if \<not> dir_empty fs dst then Inl DirectoryNotEmpty
                    else Inr (put (put fs src None) dst (Some n))))"

text \<open>
  \<open>shutil.move\<close>: into \<open>dst\<close> when \<open>dst\<close> is a directory (and then never over an existing
  entry), by \<open>os.rename\<close> otherwise. Where \<open>os.rename\<close> fails, the copying fallback of
  \<open>shutil.move\<close> fails for the same reason, so the failure is the result.
\<close>

definition shutil_move :: "node \<Rightarrow> path \<Rightarrow> path \<Rightarrow> error + node" where
  "shutil_move fs src dst =
     (if is_dir fs dst
      then (if exists fs (dst @ [name_of src]) then Inl ShutilError
            else os_rename fs src (dst @ [name_of src]))
      else os_rename fs src dst)"

definition os_mkdir :: "node \<Rightarrow> path \<Rightarrow> error + node" where
  "os_mkdir fs p =
     (if exists fs p then Inl FileExistsError
      else if \<not> exists fs (parent p) then Inl FileNotFoundError
      else if \<not> is_dir fs (parent p) then Inl NotADirectoryError
      else Inr (put fs p (Some (Dir []))))"

text \<open>
  \<open>Path.mkdir(parents=True, exist_ok=True)\<close>. The directories created before a failure
  stay, so the tree is returned together with the error.
\<close>

function mkdir_parents :: "node \<Rightarrow> path \<Rightarrow> node \<times> error option" where
  "mkdir_parents fs p =
     (case os_mkdir fs p of
        Inr fs' \<Rightarrow> (fs', None)
      | Inl FileNotFoundError \<Rightarrow>
          (if p = [] then (fs, Some FileNotFoundError)
           else (case mkdir_parents fs (parent p) of
                   (fs', Some e) \<Rightarrow> (fs', Some e)
                 | (fs', None) \<Rightarrow>
                     (case os_mkdir fs' p of
                        Inr fs'' \<Rightarrow> (fs'', None)
                      | Inl e \<Rightarrow> (fs', Some e))))
      | Inl e \<Rightarrow> (if is_dir fs p then (fs, None) else (fs, Some e)))"
  by pat_completeness auto
termination
  by (relation "measure (\<lambda>(fs, p). length p)") (auto simp: parent_def)

definition os_rmdir :: "node \<Rightarrow> path \<Rightarrow> error + node" where
  "os_rmdir fs p =
     (case stat fs p of
        None \<Rightarrow> Inl FileNotFoundError
      | Some (F x) \<Rightarrow> Inl NotADirectoryError
      | Some D \<Rightarrow>
          if p = [] then Inl InvalidArgument
          else if \<not> dir_empty fs p then Inl DirectoryNotEmpty
          else Inr (put fs p None))"

text \<open>
  \<open>Path.rglob\<close>: the paths below a directory, the entries of a directory before the
  entries of its subdirectories, filtered by the pattern on the last component. Below
  something that is not a directory there is nothing.
\<close>

fun walk :: "node \<Rightarrow> path list" where
  "walk (File x) = []"
| "walk (Dir es) =
     map (\<lambda>e. [fst e]) es @ concat (map (\<lambda>e. map ((#) (fst e)) (walk (snd e))) es)"

definition rglob :: "node \<Rightarrow> path \<Rightarrow> (string \<Rightarrow> bool) \<Rightarrow> path list" where
  "rglob fs dir pat =
     (case lookup fs dir of
        None \<Rightarrow> []
      | Some n \<Rightarrow> map ((@) dir) (filter (\<lambda>p. pat (name_of p)) (walk n)))"

definition pat_md :: "string \<Rightarrow> bool" where
  "pat_md name = suffix ''.md'' name"

definition pat_star :: "string \<Rightarrow> bool" where
  "pat_star name = True"

section \<open>Name collisions\<close>

text \<open>\<open>str.rfind('.')\<close>, with \<open>None\<close> for \<open>-1\<close>; \<open>Path.stem\<close> and \<open>Path.suffix\<close>.\<close>

fun rfind_dot :: "string \<Rightarrow> nat option" where
  "rfind_dot [] = None"
| "rfind_dot (c # s) =
     (case rfind_dot s of
        Some i \<Rightarrow> Some (Suc i)
      | None \<Rightarrow> if c = CHR ''.'' then Some 0 else None)"

definition path_suffix :: "string \<Rightarrow> string" where
  "path_suffix name =
     (case rfind_dot name of
        Some i \<Rightarrow> if 0 < i \<and> i < length name - 1 then drop i name else []
      | None \<Rightarrow> [])"

definition path_stem :: "string \<Rightarrow> string" where
  "path_stem name =
     (case rfind_dot name of
        Some i \<Rightarrow> if 0 < i \<and> i < length name - 1 then take i name else name
      | None \<Rightarrow> name)"

text \<open>\<open>str(counter)\<close>: the decimal digits of a natural number.\<close>

definition digit :: "nat \<Rightarrow> char" where
  "digit d = ''0123456789'' ! d"

fun str_nat :: "nat \<Rightarrow> string" where
  "str_nat n = (if n < 10 then [digit n] else str_nat (n div 10) @ [digit (n mod 10)])"

declare str_nat.simps [simp del]

definition candidate :: "path \<Rightarrow> string \<Rightarrow> string \<Rightarrow> nat \<Rightarrow> path" where
  "candidate target_dir stem suff counter =
     target_dir @ [stem @ ''_'' @ str_nat counter @ suff]"

text \<open>
  The loop \<open>while target_file.exists()\<close> of \<open>main\<close>, entered with \<open>counter = 1\<close> and the
  desired name. It ends because a directory has finitely many entries and the candidate
  names of different counters differ; the lemmas before the termination proof say so.
\<close>

function probe :: "node \<Rightarrow> path \<Rightarrow> string \<Rightarrow> string \<Rightarrow> nat \<Rightarrow> path \<Rightarrow> path" where
  "probe fs target_dir stem suff counter target_file =
     (if exists fs target_file
      then probe fs target_dir stem suff (counter + 1) (candidate target_dir stem suff counter)
      else target_file)"
  by pat_completeness auto

lemma digit_inj: "d < 10 \<Longrightarrow> e < 10 \<Longrightarrow> digit d = digit e \<Longrightarrow> d = e"
proof -
  assume a: "d < 10" "e < 10" "digit d = digit e"
  have "distinct ''0123456789''" by simp
  moreover have "d < length ''0123456789''" "e < length ''0123456789''" using a by simp_all
  ultimately show ?thesis using a(3) unfolding digit_def by (simp only: nth_eq_iff_index_eq)
qed

lemma str_nat_nonempty: "str_nat n \<noteq> []"
  by (subst str_nat.simps) simp

lemma str_nat_inj: "str_nat n = str_nat m \<Longrightarrow> n = m"
proof (induction n arbitrary: m rule: str_nat.induct)
  case (1 n)
  show ?case
  proof (cases "n < 10")
    case True
    then have n: "str_nat n = [digit n]" by (subst str_nat.simps) simp
    show ?thesis
    proof (cases "m < 10")
      case True
      then have "str_nat m = [digit m]" by (subst str_nat.simps) simp
      with n "1.prems" \<open>n < 10\<close> True show ?thesis by (auto dest: digit_inj)
    next
      case False
      then have "str_nat m = str_nat (m div 10) @ [digit (m mod 10)]"
        by (subst str_nat.simps) simp
      with n "1.prems" show ?thesis using str_nat_nonempty[of "m div 10"] by simp
    qed
  next
    case False
    then have n: "str_nat n = str_nat (n div 10) @ [digit (n mod 10)]"
      by (subst str_nat.simps) simp
    show ?thesis
    proof (cases "m < 10")
      case True
      then have "str_nat m = [digit m]" by (subst str_nat.simps) simp
      with n "1.prems" show ?thesis using str_nat_nonempty[of "n div 10"] by simp
    next
      case m: False
      then have "str_nat m = str_nat (m div 10) @ [digit (m mod 10)]"
        by (subst str_nat.simps) simp
      with n "1.prems" have e: "str_nat (n div 10) = str_nat (m div 10)"
        and d: "digit (n mod 10) = digit (m mod 10)" by simp_all
      from "1.IH"[OF False e] have "n div 10 = m div 10" .
      moreover from d have "n mod 10 = m mod 10" by (rule digit_inj[rotated 2]) simp_all
      ultimately show ?thesis by (metis div_mult_mod_eq)
    qed
  qed
qed

lemma candidate_inj: "candidate d st su j = candidate d st su k \<Longrightarrow> j = k"
  by (auto simp: candidate_def dest: str_nat_inj)

lemma lookup_snoc:
  "lookup n (p @ [c]) = (case lookup n p of Some (Dir es) \<Rightarrow> map_of es c | _ \<Rightarrow> None)"
proof (induction n p rule: lookup.induct)
  case (1 n)
  then show ?case by (cases n) (auto split: option.splits)
next
  case (2 x c cs)
  then show ?case by simp
next
  case (3 es c cs)
  then show ?case by (auto split: option.splits node.splits)
qed

lemma finite_existing_candidates: "finite {j. exists fs (candidate d st su j)}"
proof (cases "lookup fs d")
  case None
  then have "{j. exists fs (candidate d st su j)} = {}"
    by (simp add: exists_def candidate_def lookup_snoc)
  then show ?thesis by simp
next
  case (Some n)
  show ?thesis
  proof (cases n)
    case (File x)
    with Some have "{j. exists fs (candidate d st su j)} = {}"
      by (simp add: exists_def candidate_def lookup_snoc)
    then show ?thesis by simp
  next
    case (Dir es)
    let ?nm = "\<lambda>j. st @ ''_'' @ str_nat j @ su"
    have "inj ?nm" by (rule injI) (auto dest: str_nat_inj)
    then have "finite (?nm -` fst ` set es)" by (intro finite_vimageI) simp_all
    moreover have "{j. exists fs (candidate d st su j)} \<subseteq> ?nm -` fst ` set es"
    proof
      fix j assume "j \<in> {j. exists fs (candidate d st su j)}"
      then obtain m where "map_of es (?nm j) = Some m"
        using Some Dir by (auto simp: exists_def candidate_def lookup_snoc)
      then have "(?nm j, m) \<in> set es" by (rule map_of_SomeD)
      then have "fst (?nm j, m) \<in> fst ` set es" by (rule imageI)
      then show "j \<in> ?nm -` fst ` set es" by simp
    qed
    ultimately show ?thesis by (rule rev_finite_subset)
  qed
qed

termination probe
proof (relation "measure (\<lambda>(fs, d, st, su, k, t).
         (if exists fs t then 1 else 0) + card {j. k \<le> j \<and> exists fs (candidate d st su j)})")
  show "wf (measure (\<lambda>(fs, d, st, su, k, t).
         (if exists fs t then 1 else 0) + card {j. k \<le> j \<and> exists fs (candidate d st su j)}))"
    by simp
next
  fix fs :: node and d :: path and st su :: string and k :: nat and t :: path
  assume ex: "exists fs t"
  let ?E = "\<lambda>k. {j. k \<le> j \<and> exists fs (candidate d st su j)}"
  have fin: "finite (?E k)" by (rule rev_finite_subset[OF finite_existing_candidates]) auto
  have "(if exists fs (candidate d st su k) then 1 else 0) + card (?E (k + 1)) = card (?E k)"
  proof (cases "exists fs (candidate d st su k)")
    case True
    then have "?E k = insert k (?E (k + 1))" by (auto simp: le_Suc_eq)
    moreover have "k \<notin> ?E (k + 1)" by simp
    moreover have "finite (?E (k + 1))" by (rule rev_finite_subset[OF fin]) auto
    ultimately show ?thesis using True by simp
  next
    case False
    then have "?E k = ?E (k + 1)" by (auto simp: le_Suc_eq) (metis Suc_leI le_neq_implies_less)
    then show ?thesis using False by simp
  qed
  then show "((fs, d, st, su, k + 1, candidate d st su k), (fs, d, st, su, k, t))
      \<in> measure (\<lambda>(fs, d, st, su, k, t).
         (if exists fs t then 1 else 0) + card {j. k \<le> j \<and> exists fs (candidate d st su j)})"
    using ex by simp
qed

declare probe.simps [simp del]

section \<open>The run\<close>

definition docs_dir :: path where
  "docs_dir = [''docs'']"

definition old_panda_core :: path where
  "old_panda_core = [decorate box_vr ''PANDA_CORE'' box_vl]"

definition new_panda_core :: path where
  "new_panda_core = [decorate box_vr ''PANDA_CORE'' box_vl]"

subsection \<open>Step 1: the container directory\<close>

datatype step1_log =
  UsingExisting | RenamedMain | RenameMainError error | AlreadyRenamed | NotFound

text \<open>
  The second component is \<open>panda_core\<close>; it is \<open>None\<close> where \<open>main\<close> returns at once.
\<close>

definition step1 :: "node \<Rightarrow> node \<times> path option \<times> step1_log" where
  "step1 fs =
     (if exists fs old_panda_core
      then (if exists fs new_panda_core
            then (fs, Some new_panda_core, UsingExisting)
            else (case os_rename fs old_panda_core new_panda_core of
                    Inr fs' \<Rightarrow> (fs', Some new_panda_core, RenamedMain)
                  | Inl e \<Rightarrow> (fs, Some old_panda_core, RenameMainError e)))
      else (if exists fs new_panda_core
            then (fs, Some new_panda_core, AlreadyRenamed)
            else (fs, None, NotFound)))"

subsection \<open>Step 2: the category directories\<close>

definition rename_subdir :: "path \<Rightarrow> node \<Rightarrow> string \<times> string \<Rightarrow> node" where
  "rename_subdir panda_core fs names =
     (let old_path = panda_core @ [fst names];
          new_path = panda_core @ [snd names]
      in if exists fs old_path
         then (if exists fs new_path then fs
               else (case os_rename fs old_path new_path of
                       Inr fs' \<Rightarrow> fs'
                     | Inl e \<Rightarrow> fs))
         else fs)"

definition step2 :: "path \<Rightarrow> node \<Rightarrow> node" where
  "step2 panda_core fs = foldl (rename_subdir panda_core) fs SUBDIR_MAPPINGS"

subsection \<open>Step 3: the moves\<close>

datatype outcome = Moved path | Failed error

text \<open>The body of the \<open>try\<close> for one file; the tree comes back also when it raises.\<close>

definition move_one :: "path \<Rightarrow> node \<Rightarrow> path \<Rightarrow> node \<times> outcome" where
  "move_one panda_core fs file_path =
     (case map_file_to_category file_path docs_dir of
        Inl e \<Rightarrow> (fs, Failed e)
      | Inr target_category \<Rightarrow>
          (let target_dir = panda_core @ [target_category]
           in case mkdir_parents fs target_dir of
                (fs1, Some e) \<Rightarrow> (fs1, Failed e)
              | (fs1, None) \<Rightarrow>
                  (let target_file =
                         probe fs1 target_dir (path_stem (name_of file_path))
                           (path_suffix (name_of file_path)) 1
                           (target_dir @ [name_of file_path])
                   in case shutil_move fs1 file_path target_file of
                        Inl e \<Rightarrow> (fs1, Failed e)
                      | Inr fs2 \<Rightarrow> (fs2, Moved target_file))))"

record summary =
  moved_count :: nat
  error_count :: nat
  item_log :: "(path \<times> outcome) list"

fun move_all :: "path \<Rightarrow> path list \<Rightarrow> node \<times> summary \<Rightarrow> node \<times> summary" where
  "move_all panda_core [] st = st"
| "move_all panda_core (file_path # rest) (fs, r) =
     (case move_one panda_core fs file_path of
        (fs', Moved t) \<Rightarrow>
          move_all panda_core rest
            (fs', r\<lparr>moved_count := moved_count r + 1,
                    item_log := item_log r @ [(file_path, Moved t)]\<rparr>)
      | (fs', Failed e) \<Rightarrow>
          move_all panda_core rest
            (fs', r\<lparr>error_count := error_count r + 1,
                    item_log := item_log r @ [(file_path, Failed e)]\<rparr>))"

definition step3 :: "path \<Rightarrow> node \<Rightarrow> node \<times> summary option" where
  "step3 panda_core fs =
     (if \<not> exists fs docs_dir then (fs, None)
      else (let all_files = rglob fs docs_dir pat_md;
                res = move_all panda_core all_files
                        (fs, \<lparr>moved_count = 0, error_count = 0, item_log = []\<rparr>)
            in (fst res, Some (snd res))))"

subsection \<open>Step 4: the empty directories\<close>

text \<open>
  \<open>len(str(p))\<close>: every component with the separator before it. The length of
  \<open>str(root_dir)\<close> is the same in every key and is left out.
\<close>

definition str_len :: "path \<Rightarrow> nat" where
  "str_len p = sum_list (map (\<lambda>c. Suc (length c)) p)"

definition prune_one :: "node \<times> nat \<Rightarrow> path \<Rightarrow> node \<times> nat" where
  "prune_one st dir_path =
     (let fs = fst st; removed_count = snd st
      in if is_dir fs dir_path
         then (if \<not> dir_empty fs dir_path then st
               else (case os_rmdir fs dir_path of
                       Inr fs' \<Rightarrow> (fs', removed_count + 1)
                     | Inl e \<Rightarrow> st))
         else st)"

definition all_dirs :: "node \<Rightarrow> path list" where
  "all_dirs fs = sort_key (\<lambda>p. - int (str_len p)) (rglob fs docs_dir pat_star)"

definition step4 :: "node \<Rightarrow> node \<times> nat option" where
  "step4 fs =
     (if exists fs docs_dir
      then (let res = foldl prune_one (fs, 0) (all_dirs fs) in (fst res, Some (snd res)))
      else (fs, None))"

subsection \<open>Step 5: the source root\<close>

datatype step5_log = DocsRemoved | DocsRemoveError error | StillContains nat | DocsAbsent

definition step5 :: "node \<Rightarrow> node \<times> step5_log" where
  "step5 fs =
     (if exists fs docs_dir
      then (let remaining_files = rglob fs docs_dir pat_star
            in if remaining_files = []
               then (case os_rmdir fs docs_dir of
                       Inr fs' \<Rightarrow> (fs', DocsRemoved)
                     | Inl e \<Rightarrow> (fs, DocsRemoveError e))
               else (fs, StillContains (length remaining_files)))
      else (fs, DocsAbsent))"

subsection \<open>\<open>main\<close> and the exit status\<close>

record report =
  container :: step1_log
  consolidated :: "summary option"
  removed_dirs :: "nat option"
  docs_status :: step5_log

datatype run = Stopped step1_log | Complete report

definition main :: "node \<Rightarrow> node \<times> run" where
  "main fs =
     (case step1 fs of
        (fs1, None, l) \<Rightarrow> (fs1, Stopped l)
      | (fs1, Some panda_core, l) \<Rightarrow>
          (let fs2 = step2 panda_core fs1;
               s3 = step3 panda_core fs2;
               s4 = step4 (fst s3);
               s5 = step5 (fst s4)
           in (fst s5,
               Complete \<lparr>container = l, consolidated = snd s3,
                         removed_dirs = snd s4, docs_status = snd s5\<rparr>)))"

text \<open>
  \<open>if __name__ == "__main__": main()\<close>: the interpreter ends with status 0 when \<open>main\<close>
  returns, by the \<open>return\<close> of step 1 or at its end; nothing in the script calls
  \<open>sys.exit\<close>, and no operation of the model raises outside a \<open>try\<close>.
\<close>

definition exit_status :: "node \<Rightarrow> nat" where
  "exit_status fs = (case snd (main fs) of Stopped l \<Rightarrow> 0 | Complete rep \<Rightarrow> 0)"

section \<open>Facts about the file system operations\<close>

lemma lookup_append:
  "lookup n (p @ q) = (case lookup n p of None \<Rightarrow> None | Some m \<Rightarrow> lookup m q)"
  by (induction n p rule: lookup.induct) (auto split: option.splits)

lemma stat_Nil: "stat n [] = Some (kind_of n)"
  by (simp add: stat_def)

lemma stat_append:
  "stat n (p @ q) = (case lookup n p of None \<Rightarrow> None | Some m \<Rightarrow> stat m q)"
  by (simp add: stat_def lookup_append split: option.splits)

lemma stat_File_Cons: "stat (File x) (c # cs) = None"
  by (simp add: stat_def)

lemma stat_Dir_Cons:
  "stat (Dir es) (c # cs) = (case map_of es c of None \<Rightarrow> None | Some m \<Rightarrow> stat m cs)"
  by (simp add: stat_def split: option.splits)

lemma is_dir_lookup: "is_dir n p \<longleftrightarrow> (\<exists>es. lookup n p = Some (Dir es))"
  by (cases "lookup n p") (auto simp: is_dir_def stat_def kind_of_def split: node.splits)

lemma exists_stat: "exists n p \<longleftrightarrow> stat n p \<noteq> None"
  by (simp add: exists_def stat_def)

lemma exists_parent_is_dir:
  assumes "exists n p" "p \<noteq> []"
  shows "is_dir n (butlast p)"
proof -
  from assms(2) have "p = butlast p @ [last p]" by simp
  then have "lookup n (butlast p @ [last p]) \<noteq> None" using assms(1) by (simp add: exists_def)
  then show ?thesis
    by (auto simp: lookup_snoc is_dir_lookup split: option.splits node.splits)
qed

lemma kind_of_put: "r \<noteq> [] \<Longrightarrow> kind_of (put m r v) = kind_of m"
  by (cases "(m, r, v)" rule: put.cases) (auto simp: kind_of_def split: option.splits)

lemma stat_put:
  assumes "p \<noteq> []" "is_dir n (butlast p)"
  shows "stat (put n p v) q =
     (if prefix p q then (case v of None \<Rightarrow> None | Some m \<Rightarrow> stat m (drop (length p) q))
      else stat n q)"
  using assms
proof (induction p arbitrary: n q)
  case Nil
  then show ?case by simp
next
  case (Cons c cs)
  show ?case
  proof (cases cs)
    case Nil
    with Cons.prems obtain es where n: "n = Dir es"
      by (auto simp: is_dir_lookup)
    show ?thesis
    proof (cases q)
      case Nil
      then show ?thesis using n \<open>cs = []\<close> by (cases v) (simp_all add: stat_def kind_of_def)
    next
      case (Cons c' qs)
      then show ?thesis using n \<open>cs = []\<close>
        by (cases v) (auto simp: stat_Dir_Cons update_conv' delete_conv')
    qed
  next
    case (Cons c2 cs')
    with Cons.prems have "is_dir n (c # butlast cs)" by simp
    then obtain es m where n: "n = Dir es" and m: "map_of es c = Some m"
      and md: "is_dir m (butlast cs)"
      by (cases n) (auto simp: is_dir_lookup split: option.splits)
    have ih: "\<And>q. stat (put m cs v) q =
       (if prefix cs q then (case v of None \<Rightarrow> None | Some m' \<Rightarrow> stat m' (drop (length cs) q))
        else stat m q)"
      using Cons.IH[OF _ md] Cons by simp
    have pn: "put n (c # cs) v = Dir (AList.update c (put m cs v) es)"
      using n m Cons by simp
    show ?thesis
    proof (cases q)
      case Nil
      then show ?thesis using pn n by (simp add: stat_def kind_of_def)
    next
      case q: (Cons c' qs)
      show ?thesis
      proof (cases "c' = c")
        case True
        then show ?thesis using pn q ih[of qs] n m
          by (cases v) (simp_all add: stat_Dir_Cons update_conv')
      next
        case False
        then show ?thesis using pn q n
          by (simp add: stat_Dir_Cons update_conv')
      qed
    qed
  qed
qed

lemma lookup_put_below:
  assumes "p \<noteq> []" "is_dir n (butlast p)"
  shows "lookup (put n p v) (p @ r) = (case v of None \<Rightarrow> None | Some m \<Rightarrow> lookup m r)"
  using assms
proof (induction p arbitrary: n)
  case Nil
  then show ?case by simp
next
  case (Cons c cs)
  show ?case
  proof (cases cs)
    case Nil
    with Cons.prems obtain es where n: "n = Dir es"
      by (auto simp: is_dir_lookup)
    then show ?thesis using \<open>cs = []\<close>
      by (cases v) (auto simp: update_conv' delete_conv')
  next
    case (Cons c2 cs')
    with Cons.prems have "is_dir n (c # butlast cs)" by simp
    then obtain es m where n: "n = Dir es" and m: "map_of es c = Some m"
      and md: "is_dir m (butlast cs)"
      by (cases n) (auto simp: is_dir_lookup split: option.splits)
    have "lookup (put m cs v) (cs @ r) = (case v of None \<Rightarrow> None | Some m \<Rightarrow> lookup m r)"
      using Cons.IH[OF _ md] Cons by simp
    then show ?thesis using n m Cons by (simp add: update_conv')
  qed
qed

lemma dir_empty_stat:
  "dir_empty n p \<longleftrightarrow> is_dir n p \<and> (\<forall>c. stat n (p @ [c]) = None)"
proof (cases "lookup n p")
  case None
  then show ?thesis by (simp add: dir_empty_def is_dir_lookup)
next
  case (Some m)
  show ?thesis
  proof (cases m)
    case (File x)
    with Some show ?thesis by (simp add: dir_empty_def is_dir_lookup)
  next
    case (Dir es)
    have "(\<forall>c. map_of es c = None) \<longleftrightarrow> es = []"
    proof (cases es)
      case Nil
      then show ?thesis by simp
    next
      case (Cons e es')
      then have "map_of es (fst e) \<noteq> None" by (cases e) simp
      then show ?thesis using Cons by auto
    qed
    then show ?thesis using Some Dir
      by (auto simp: dir_empty_def is_dir_lookup stat_def lookup_snoc)
  qed
qed

lemma stat_below_missing: "stat n p = None \<Longrightarrow> stat n (p @ r) = None"
  by (simp add: stat_def lookup_append)


lemma stat_below_empty: "dir_empty n p \<Longrightarrow> r \<noteq> [] \<Longrightarrow> stat n (p @ r) = None"
  by (cases r) (auto simp: stat_def lookup_append dir_empty_def)

lemma prefixE_append:
  assumes "prefix p q"
  obtains r where "q = p @ r"
  using assms by (auto simp: prefix_def)

lemma os_rmdir_stat:
  assumes "os_rmdir fs p = Inr fs'"
  shows "dir_empty fs p \<and> (\<forall>q. stat fs' q = (if q = p then None else stat fs q))"
proof -
  from assms have d: "is_dir fs p" and ne: "p \<noteq> []" and e: "dir_empty fs p"
    and fs': "fs' = put fs p None"
    by (auto simp: os_rmdir_def is_dir_def split: option.splits kind.splits if_splits)
  from d ne have pd: "is_dir fs (butlast p)"
    by (intro exists_parent_is_dir) (simp_all add: exists_stat is_dir_def)
  have "stat fs' q = (if q = p then None else stat fs q)" for q
  proof (cases "prefix p q")
    case True
    then obtain r where q: "q = p @ r" by (rule prefixE_append)
    show ?thesis using stat_put[OF ne pd, of None q] stat_below_empty[OF e, of r] True q fs'
      by (cases "r = []") simp_all
  next
    case False
    then show ?thesis using stat_put[OF ne pd, of None q] fs' by auto
  qed
  with e show ?thesis by simp
qed

lemma os_mkdir_stat:
  assumes "os_mkdir fs p = Inr fs'"
  shows "stat fs p = None \<and> is_dir fs (parent p) \<and>
         (\<forall>q. stat fs' q = (if q = p then Some D else stat fs q))"
proof -
  from assms have n: "stat fs p = None" and pd: "is_dir fs (butlast p)"
    and fs': "fs' = put fs p (Some (Dir []))"
    by (auto simp: os_mkdir_def exists_stat parent_def split: if_splits)
  from n have ne: "p \<noteq> []" by (auto simp: stat_Nil)
  have "stat fs' q = (if q = p then Some D else stat fs q)" for q
  proof (cases "prefix p q")
    case True
    then obtain r where q: "q = p @ r" by (rule prefixE_append)
    show ?thesis using stat_put[OF ne pd, of "Some (Dir [])" q] stat_below_missing[OF n, of r] True q fs'
      by (cases r) (simp_all add: stat_Nil kind_of_def stat_Dir_Cons)
  next
    case False
    then show ?thesis using stat_put[OF ne pd, of "Some (Dir [])" q] fs' by auto
  qed
  with n pd show ?thesis by (simp add: parent_def)
qed

text \<open>What \<open>mkdir_parents\<close> changes: it only adds directories, on the way to \<open>p\<close>.\<close>

lemma mkdir_parents_stat:
  "mkdir_parents fs p = (fs', eo) \<Longrightarrow>
     (stat fs' q = stat fs q \<or> (stat fs q = None \<and> stat fs' q = Some D \<and> prefix q p)) \<and>
     (eo = None \<longrightarrow> is_dir fs' p)"
proof (induction fs p arbitrary: fs' eo q rule: mkdir_parents.induct)
  case (1 fs p)
  show ?case
  proof (cases "os_mkdir fs p")
    case (Inr fs1)
    with "1.prems" have "fs' = fs1" "eo = None"
      by (simp_all add: mkdir_parents.simps[of fs p])
    with os_mkdir_stat[OF Inr] show ?thesis by (auto simp: is_dir_def)
  next
    case (Inl e)
    show ?thesis
    proof (cases "e = FileNotFoundError \<and> p \<noteq> []")
      case False
      with Inl "1.prems" have "fs' = fs" "eo = None \<longrightarrow> is_dir fs p"
        by (auto simp: mkdir_parents.simps[of fs p] split: error.splits if_splits)
      then show ?thesis by simp
    next
      case True
      obtain fs1 e1 where r: "mkdir_parents fs (parent p) = (fs1, e1)" by force
      from True Inl have ih: "\<And>q. (stat fs1 q = stat fs q \<or>
            (stat fs q = None \<and> stat fs1 q = Some D \<and> prefix q (parent p)))"
        using "1.IH"[OF Inl _ _ r] by simp
      have pp: "prefix q (parent p) \<Longrightarrow> prefix q p" for q
        by (metis True append_butlast_last_id parent_def prefix_order.dual_order.trans prefix_def)
      show ?thesis
      proof (cases e1)
        case (Some e')
        with r True Inl "1.prems" have "fs' = fs1" "eo = Some e'"
          by (simp_all add: mkdir_parents.simps[of fs p])
        with ih[of q] pp show ?thesis by auto
      next
        case None
        show ?thesis
        proof (cases "os_mkdir fs1 p")
          case (Inl e2)
          with None r True \<open>os_mkdir fs p = Inl e\<close> "1.prems" have "fs' = fs1" "eo = Some e2"
            by (simp_all add: mkdir_parents.simps[of fs p])
          with ih[of q] pp show ?thesis by auto
        next
          case (Inr fs2)
          with None r True \<open>os_mkdir fs p = Inl e\<close> "1.prems" have "fs' = fs2" "eo = None"
            by (simp_all add: mkdir_parents.simps[of fs p])
          with ih[of q] pp os_mkdir_stat[OF Inr] show ?thesis
            by (auto simp: is_dir_def)
        qed
      qed
    qed
  qed
qed

lemma os_rename_stat:
  assumes "os_rename fs src dst = Inr fs'" "src \<noteq> dst"
  shows "\<not> prefix src dst \<and> exists fs src \<and> is_dir fs (parent dst) \<and>
         (\<forall>q. stat fs' q =
            (if prefix dst q then stat fs (src @ drop (length dst) q)
             else if prefix src q then None else stat fs q))"
proof -
  from assms obtain n where n: "lookup fs src = Some n" and ne: "src \<noteq> []" "dst \<noteq> []"
    and pd: "is_dir fs (butlast dst)" and np: "\<not> prefix src dst"
    and fs': "fs' = put (put fs src None) dst (Some n)"
    by (auto simp: os_rename_def parent_def split: option.splits if_splits kind.splits)
  from n have ex: "exists fs src" by (simp add: exists_def)
  from ex ne have sd: "is_dir fs (butlast src)" by (intro exists_parent_is_dir)
  let ?fs1 = "put fs src None"
  have s1: "stat ?fs1 q = (if prefix src q then None else stat fs q)" for q
    using stat_put[OF ne(1) sd, of None q] by simp
  have "\<not> prefix src (butlast dst)"
    using np by (metis ne(2) append_butlast_last_id prefix_order.trans prefixI)
  with pd have pd1: "is_dir ?fs1 (butlast dst)" by (simp add: is_dir_def s1)
  have "stat fs' q =
            (if prefix dst q then stat fs (src @ drop (length dst) q)
             else if prefix src q then None else stat fs q)" for q
    using stat_put[OF ne(2) pd1, of "Some n" q] s1[of q] n fs'
    by (simp add: stat_append)
  with np ex pd show ?thesis by (simp add: parent_def)
qed

lemma walk_nonempty: "[] \<notin> set (walk n)"
  by (cases n) auto

lemma walk_complete: "lookup n r \<noteq> None \<Longrightarrow> r \<noteq> [] \<Longrightarrow> r \<in> set (walk n)"
proof (induction r arbitrary: n)
  case Nil
  then show ?case by simp
next
  case (Cons c r)
  then obtain es m where n: "n = Dir es" and m: "map_of es c = Some m"
    and l: "lookup m r \<noteq> None"
    by (cases n) (auto split: option.splits)
  from m have mem: "(c, m) \<in> set es" by (rule map_of_SomeD)
  show ?case
  proof (cases "r = []")
    case True
    with mem n show ?thesis by force
  next
    case False
    from Cons.IH[OF l False] have "c # r \<in> (#) c ` set (walk m)" by simp
    with mem n show ?thesis by force
  qed
qed


section \<open>Classification\<close>

text \<open>
  The twelve decorated names, and what it means that no rule of the classifier matches:
  at the root level none of the keywords of the chain occurs in the file name, below a
  subdirectory the directory name is none of the nine names of the second chain.
\<close>

definition categories :: "string list" where
  "categories = map snd SUBDIR_MAPPINGS"

definition root_keywords :: "string list" where
  "root_keywords =
     [''getting_started'', ''setup'', ''environment'', ''architecture'', ''development'',
      ''build'', ''storybook'', ''wiki'', ''deployment'', ''security'', ''api'', ''service'',
      ''test'', ''audit'', ''cache'', ''dead_code'', ''guide'', ''resend'', ''auto_config'',
      ''migration'', ''product'', ''reference'', ''scrollbar'', ''analytics'', ''cloudflare'',
      ''chat'']"

definition known_subdirs :: "string list" where
  "known_subdirs =
     [''getting-started'', ''architecture'', ''development'', ''deployment'', ''security'',
      ''api'', ''services'', ''guides'', ''reference'']"

definition no_rule_matches :: "string \<Rightarrow> string \<Rightarrow> bool" where
  "no_rule_matches dir_name file_name =
     (if dir_name = ''.'' \<or> dir_name = ''''
      then \<not> list_ex (\<lambda>k. contains k file_name) root_keywords
      else dir_name \<notin> set known_subdirs)"


lemma subdir_in_categories:
  "subdir ''01_GETTING_STARTED'' \<in> set categories"
  "subdir ''02_ARCHITECTURE'' \<in> set categories"
  "subdir ''03_DEVELOPMENT'' \<in> set categories"
  "subdir ''04_DEPLOYMENT'' \<in> set categories"
  "subdir ''05_SECURITY'' \<in> set categories"
  "subdir ''06_API_REFERENCE'' \<in> set categories"
  "subdir ''07_SERVICES'' \<in> set categories"
  "subdir ''08_TESTING'' \<in> set categories"
  "subdir ''09_AUDITS_AND_REPORTS'' \<in> set categories"
  "subdir ''10_GUIDES_AND_TUTORIALS'' \<in> set categories"
  "subdir ''11_MIGRATION_GUIDES'' \<in> set categories"
  "subdir ''12_REFERENCE'' \<in> set categories"
  by (simp_all add: subdir_def categories_def SUBDIR_MAPPINGS_def)

lemma categories_twelve: "length categories = 12 \<and> distinct categories"
  by (simp add: categories_def SUBDIR_MAPPINGS_def decorate_def box_dr_def box_vr_def box_ur_def)

lemma if_mem: "a \<in> S \<Longrightarrow> b \<in> S \<Longrightarrow> (if c then a else b) \<in> S"
  by simp

lemma root_level_in_categories: "root_level_category f \<in> set categories"
  unfolding root_level_category_def by (intro if_mem subdir_in_categories)

lemma subdir_category_in_categories: "subdir_category d \<in> set categories"
  unfolding subdir_category_def by (intro if_mem subdir_in_categories)

lemma classify_in_categories: "classify d f \<in> set categories"
  unfolding classify_def
  by (intro if_mem root_level_in_categories subdir_category_in_categories)

lemma classify_unmatched:
  assumes "no_rule_matches d f"
  shows "classify d f = subdir ''12_REFERENCE''"
proof (cases "d = ''.'' \<or> d = []")
  case True
  with assms have "\<not> list_ex (\<lambda>k. contains k f) root_keywords"
    by (simp add: no_rule_matches_def)
  then have "root_level_category f = subdir ''12_REFERENCE''"
    by (simp add: root_keywords_def root_level_category_def)
  with True show ?thesis by (simp add: classify_def)
next
  case False
  with assms have "d \<notin> set known_subdirs"
    by (simp add: no_rule_matches_def)
  then have "subdir_category d = subdir ''12_REFERENCE''"
    by (simp add: known_subdirs_def subdir_category_def)
  with False show ?thesis by (simp add: classify_def)
qed

lemma map_file_to_category_below:
  "map_file_to_category (docs @ dirs @ [file_name]) docs =
     Inr (classify (lower (name_of dirs)) (lower file_name))"
  by (simp add: map_file_to_category_def relative_to_def parent_def name_of_def)


section \<open>Facts about one move\<close>

fun is_moved :: "outcome \<Rightarrow> bool" where
  "is_moved (Moved t) = True"
| "is_moved (Failed e) = False"




lemma probe_spec:
  "\<not> exists fs (probe fs d st su k t) \<and>
   (\<not> exists fs t \<longrightarrow> probe fs d st su k t = t) \<and>
   (exists fs t \<longrightarrow>
      (\<exists>j\<ge>k. probe fs d st su k t = candidate d st su j \<and>
             (\<forall>i. k \<le> i \<and> i < j \<longrightarrow> exists fs (candidate d st su i))))"
proof (induction fs d st su k t rule: probe.induct)
  case (1 fs d st su k t)
  show ?case
  proof (cases "exists fs t")
    case False
    then show ?thesis by (simp add: probe.simps[of fs d st su k t])
  next
    case True
    let ?c = "candidate d st su k"
    have eq: "probe fs d st su k t = probe fs d st su (k + 1) ?c"
      using True by (simp add: probe.simps[of fs d st su k t])
    note ih = "1.IH"[OF True]
    show ?thesis
    proof (cases "exists fs ?c")
      case False
      with ih have "probe fs d st su (k + 1) ?c = ?c" by simp
      with eq False True show ?thesis by auto
    next
      case c: True
      with ih obtain j where j: "k + 1 \<le> j" "probe fs d st su (k + 1) ?c = candidate d st su j"
        "\<forall>i. k + 1 \<le> i \<and> i < j \<longrightarrow> exists fs (candidate d st su i)" by auto
      have "\<forall>i. k \<le> i \<and> i < j \<longrightarrow> exists fs (candidate d st su i)"
      proof (intro allI impI)
        fix i assume "k \<le> i \<and> i < j"
        then show "exists fs (candidate d st su i)"
          using j(3) c by (cases "i = k") auto
      qed
      with j eq ih True show ?thesis by (intro conjI) (auto intro!: exI[of _ j])
    qed
  qed
qed


lemma probe_below:
  "\<exists>x. probe fs d st su k (d @ [n]) = d @ [x]"
  using probe_spec[of fs d st su k "d @ [n]"]
  by (cases "exists fs (d @ [n])") (auto simp: candidate_def)

lemma move_one_cases:
  assumes "move_one pc fs file = (fs', out)"
  obtains
    (unchanged) e where "out = Failed e"
      "\<And>q. stat fs' q = stat fs q \<or>
           (stat fs q = None \<and> stat fs' q = Some D \<and>
            (\<exists>cat. map_file_to_category file docs_dir = Inr cat \<and> prefix q (pc @ [cat])))"
  | (moved) cat fs1 t x where "out = Moved t"
      "map_file_to_category file docs_dir = Inr cat"
      "mkdir_parents fs (pc @ [cat]) = (fs1, None)"
      "t = probe fs1 (pc @ [cat]) (path_stem (name_of file)) (path_suffix (name_of file)) 1
             (pc @ [cat, name_of file])"
      "t = pc @ [cat, x]"
      "os_rename fs1 file t = Inr fs'" "\<not> exists fs1 t"
proof (cases "map_file_to_category file docs_dir")
  case (Inl e)
  with assms have "out = Failed e" "fs' = fs" by (simp_all add: move_one_def)
  then show ?thesis by (intro unchanged[of e]) simp_all
next
  case (Inr cat)
  obtain fs1 eo where mk: "mkdir_parents fs (pc @ [cat]) = (fs1, eo)" by force
  note st = mkdir_parents_stat[OF mk]
  show ?thesis
  proof (cases eo)
    case (Some e)
    with assms Inr mk have "out = Failed e" "fs' = fs1" by (simp_all add: move_one_def)
    then show ?thesis using st Inr by (intro unchanged[of e]) auto
  next
    case None
    define t where "t = probe fs1 (pc @ [cat]) (path_stem (name_of file))
        (path_suffix (name_of file)) 1 (pc @ [cat, name_of file])"
    have nt: "\<not> exists fs1 t"
      unfolding t_def using probe_spec by blast
    obtain x where x: "t = pc @ [cat, x]"
      using probe_below[of fs1 "pc @ [cat]" _ _ 1 "name_of file"] by (auto simp: t_def)
    from nt have nd: "\<not> is_dir fs1 t" by (simp add: exists_stat is_dir_def)
    show ?thesis
    proof (cases "shutil_move fs1 file t")
      case (Inl e)
      with assms Inr mk None have "out = Failed e" "fs' = fs1"
        by (simp_all add: move_one_def t_def)
      then show ?thesis using st \<open>map_file_to_category file docs_dir = Inr cat\<close>
        by (intro unchanged[of e]) auto
    next
      case r: (Inr fs2)
      with assms Inr mk None have o: "out = Moved t" "fs' = fs2"
        by (simp_all add: move_one_def t_def)
      from r nd have "os_rename fs1 file t = Inr fs'" using o by (simp add: shutil_move_def)
      with o Inr mk None nt x show ?thesis by (intro moved[of t cat fs1 x]) (simp_all add: t_def)
    qed
  qed
qed

















section \<open>Facts about pruning\<close>

text \<open>
  A directory is transitively empty when no regular file lies anywhere below it;
  \<open>no_files\<close> decides it on the subtree.
\<close>

definition trans_empty :: "node \<Rightarrow> path \<Rightarrow> bool" where
  "trans_empty fs p = (is_dir fs p \<and> (\<forall>r c. stat fs (p @ r) \<noteq> Some (F c)))"

fun no_files :: "node \<Rightarrow> bool" where
  "no_files (File x) = False"
| "no_files (Dir es) = list_all (\<lambda>e. no_files (snd e)) es"

lemma no_files_stat: "no_files n \<Longrightarrow> stat n r \<noteq> Some (F c)"
proof (induction r arbitrary: n)
  case Nil
  then show ?case by (cases n) (simp_all add: stat_Nil kind_of_def)
next
  case (Cons a r)
  show ?case
  proof (cases n)
    case (File x)
    with Cons.prems show ?thesis by simp
  next
    case (Dir es)
    show ?thesis
    proof (cases "map_of es a")
      case None
      with Dir show ?thesis by (simp add: stat_Dir_Cons)
    next
      case (Some m)
      then have "(a, m) \<in> set es" by (rule map_of_SomeD)
      with Cons.prems Dir have "no_files m" by (auto simp: list_all_iff)
      from Cons.IH[OF this] Some Dir show ?thesis by (simp add: stat_Dir_Cons)
    qed
  qed
qed

lemma trans_emptyI:
  assumes "lookup fs p = Some n" "no_files n"
  shows "trans_empty fs p"
proof -
  from assms(2) obtain es where "n = Dir es" by (cases n) simp_all
  with assms(1) have "is_dir fs p" by (simp add: is_dir_lookup)
  moreover have "stat fs (p @ r) \<noteq> Some (F c)" for r c
    using no_files_stat[OF assms(2), of r c] assms(1) by (simp add: stat_append)
  ultimately show ?thesis by (simp add: trans_empty_def)
qed

lemma str_len_append: "str_len (p @ r) = str_len p + str_len r"
  by (simp add: str_len_def)

lemma str_len_strict: "strict_prefix y q \<Longrightarrow> str_len y < str_len q"
proof -
  assume "strict_prefix y q"
  then obtain r where "q = y @ r" "r \<noteq> []" by (auto simp: strict_prefix_def prefix_def)
  then show ?thesis by (cases r) (simp_all add: str_len_append, simp add: str_len_def)
qed

lemma prune_one_cases:
  assumes "prune_one (fs, k) d = (fs', k')"
  obtains
    (kept) "fs' = fs" "k' = k" "d = [] \<or> \<not> is_dir fs d \<or> \<not> dir_empty fs d"
  | (removed) "is_dir fs d" "dir_empty fs d" "d \<noteq> []" "k' = k + 1"
      "\<And>q. stat fs' q = (if q = d then None else stat fs q)"
proof (cases "is_dir fs d \<and> dir_empty fs d \<and> d \<noteq> []")
  case False
  with assms have "fs' = fs \<and> k' = k"
    by (auto simp: prune_one_def os_rmdir_def is_dir_def split: sum.splits option.splits kind.splits if_splits)
  with False show ?thesis by (intro kept) auto
next
  case True
  then have "os_rmdir fs d = Inr (put fs d None)"
    by (simp add: os_rmdir_def is_dir_def)
  with assms True have "fs' = put fs d None" "k' = k + 1"
    and r: "os_rmdir fs d = Inr fs'" by (simp_all add: prune_one_def)
  with os_rmdir_stat[OF r] True show ?thesis by (intro removed) auto
qed

lemma prune_loop_only_dirs:
  "stat (fst (foldl prune_one st xs)) p = stat (fst st) p \<or>
   (stat (fst st) p = Some D \<and> stat (fst (foldl prune_one st xs)) p = None)"
proof (induction xs arbitrary: st)
  case Nil
  then show ?case by simp
next
  case (Cons x xs)
  obtain fs k where st: "st = (fs, k)" by force
  obtain fs1 k1 where p: "prune_one (fs, k) x = (fs1, k1)" by force
  from p have "stat fs1 p = stat fs p \<or> (stat fs p = Some D \<and> stat fs1 p = None)"
    by (cases rule: prune_one_cases) (auto simp: is_dir_def)
  with Cons.IH[of "(fs1, k1)"] st p show ?case by auto
qed

lemma empty_dir_trans_empty: "is_dir fs x \<Longrightarrow> dir_empty fs x \<Longrightarrow> trans_empty fs x"
  unfolding trans_empty_def
proof (intro conjI allI)
  fix r c assume d: "is_dir fs x" and e: "dir_empty fs x"
  show "stat fs (x @ r) \<noteq> Some (F c)"
    using stat_below_empty[OF e, of r] d by (cases "r = []") (simp_all add: is_dir_def)
qed

lemma child_blocks_parent:
  assumes "exists fs (x @ [c])" "\<not> trans_empty fs (x @ [c])"
  shows "\<not> trans_empty fs x"
proof
  assume te: "trans_empty fs x"
  show False
  proof (cases "stat fs (x @ [c])")
    case None
    with assms(1) show False by (simp add: exists_stat)
  next
    case (Some k)
    show False
    proof (cases k)
      case (F z)
      with Some te show False unfolding trans_empty_def by blast
    next
      case D
      with Some assms(2) obtain r z where "stat fs ((x @ [c]) @ r) = Some (F z)"
        unfolding trans_empty_def is_dir_def by auto
      then have "stat fs (x @ ([c] @ r)) = Some (F z)" by simp
      with te show False unfolding trans_empty_def by blast
    qed
  qed
qed

lemma trans_empty_after_rmdir:
  assumes "stat fs x = Some D" "\<And>q. stat fs1 q = (if q = x then None else stat fs q)" "q \<noteq> x"
  shows "trans_empty fs1 q \<longleftrightarrow> trans_empty fs q"
proof -
  have "stat fs1 (q @ r) \<noteq> Some (F c) \<longleftrightarrow> stat fs (q @ r) \<noteq> Some (F c)" for r c
    using assms(1,2) by simp
  moreover have "is_dir fs1 q = is_dir fs q" using assms(2,3) by (simp add: is_dir_def)
  ultimately show ?thesis unfolding trans_empty_def by simp
qed

lemma prune_loop_exact:
  assumes "sorted_wrt (\<lambda>a b. str_len b \<le> str_len a) xs"
    and "\<forall>y\<in>set xs. \<forall>q. strict_prefix y q \<and> exists fs q \<longrightarrow> q \<in> set xs \<or> \<not> trans_empty fs q"
    and "[] \<notin> set xs"
  shows "stat (fst (foldl prune_one (fs, k) xs)) p =
           (if p \<in> set xs \<and> trans_empty fs p then None else stat fs p)"
  using assms
proof (induction xs arbitrary: fs k)
  case Nil
  then show ?case by simp
next
  case (Cons x xs)
  obtain fs1 k1 where po: "prune_one (fs, k) x = (fs1, k1)" by force
  have srt: "sorted_wrt (\<lambda>a b. str_len b \<le> str_len a) xs"
    and le: "\<And>y. y \<in> set xs \<Longrightarrow> str_len y \<le> str_len x"
    and nn: "[] \<notin> set xs" and xn: "x \<noteq> []"
    using Cons.prems(1,3) by auto
  note cl = Cons.prems(2)
  from po show ?case
  proof (cases rule: prune_one_cases)
    case kept
    have nte: "\<not> trans_empty fs x"
    proof (cases "is_dir fs x")
      case False
      then show ?thesis by (simp add: trans_empty_def)
    next
      case True
      with kept(3) xn have "\<not> dir_empty fs x" by simp
      with True obtain c where c: "stat fs (x @ [c]) \<noteq> None"
        by (auto simp: dir_empty_stat)
      then have ex: "exists fs (x @ [c])" by (simp add: exists_stat)
      have sp: "strict_prefix x (x @ [c])" by (simp add: strict_prefix_def)
      have "x @ [c] \<notin> set xs" using le[of "x @ [c]"] str_len_strict[OF sp] by auto
      with cl sp ex have "\<not> trans_empty fs (x @ [c])" by auto
      with ex show ?thesis by (rule child_blocks_parent)
    qed
    have cl': "\<forall>y\<in>set xs. \<forall>q. strict_prefix y q \<and> exists fs q \<longrightarrow>
        q \<in> set xs \<or> \<not> trans_empty fs q"
      using cl nte by auto
    have "stat (fst (foldl prune_one (fs, k) xs)) p =
           (if p \<in> set xs \<and> trans_empty fs p then None else stat fs p)"
      by (rule Cons.IH[OF srt cl' nn])
    with kept po nte show ?thesis by auto
  next
    case removed
    note s1 = removed(5)
    have dx: "stat fs x = Some D" using removed(1) by (simp add: is_dir_def)
    have te: "q \<noteq> x \<Longrightarrow> trans_empty fs1 q \<longleftrightarrow> trans_empty fs q" for q
      using trans_empty_after_rmdir[OF dx s1] by simp
    have tex: "trans_empty fs x" using removed(1,2) by (rule empty_dir_trans_empty)
    have ntex: "\<not> trans_empty fs1 x" by (simp add: trans_empty_def is_dir_def s1)
    have cl': "\<forall>y\<in>set xs. \<forall>q. strict_prefix y q \<and> exists fs1 q \<longrightarrow>
        q \<in> set xs \<or> \<not> trans_empty fs1 q"
    proof (intro ballI allI impI)
      fix y q assume y: "y \<in> set xs" and q: "strict_prefix y q \<and> exists fs1 q"
      then have qx: "q \<noteq> x" and "exists fs q" by (auto simp: exists_stat s1 split: if_splits)
      with cl y q have "q \<in> set (x # xs) \<or> \<not> trans_empty fs q" by auto
      with qx te[OF qx] show "q \<in> set xs \<or> \<not> trans_empty fs1 q" by auto
    qed
    have ih: "stat (fst (foldl prune_one (fs1, k1) xs)) p =
           (if p \<in> set xs \<and> trans_empty fs1 p then None else stat fs1 p)"
      by (rule Cons.IH[OF srt cl' nn])
    show ?thesis
    proof (cases "p = x")
      case True
      with ih ntex tex po s1 show ?thesis by simp
    next
      case False
      with ih te[OF False] po s1 show ?thesis by simp
    qed
  qed
qed

lemma rglob_star_below:
  assumes "p \<in> set (rglob fs d pat_star)"
  shows "strict_prefix d p"
proof -
  from assms obtain n r where "lookup fs d = Some n" "r \<in> set (walk n)" "p = d @ r"
    by (cases "lookup fs d") (auto simp: rglob_def pat_star_def)
  moreover from this walk_nonempty[of n] have "r \<noteq> []" by auto
  ultimately show ?thesis by (simp add: strict_prefix_def)
qed

lemma rglob_star_complete:
  assumes "strict_prefix d p" "exists fs p"
  shows "p \<in> set (rglob fs d pat_star)"
proof -
  from assms(1) obtain r where p: "p = d @ r" "r \<noteq> []"
    by (auto simp: strict_prefix_def prefix_def)
  with assms(2) obtain n where n: "lookup fs d = Some n" "lookup n r \<noteq> None"
    by (auto simp: exists_def lookup_append split: option.splits)
  from walk_complete[OF n(2) p(2)] n(1) p show ?thesis
    by (simp add: rglob_def pat_star_def)
qed

lemma all_dirs_set: "set (all_dirs fs) = set (rglob fs docs_dir pat_star)"
  by (simp add: all_dirs_def)

lemma all_dirs_sorted: "sorted_wrt (\<lambda>a b. str_len b \<le> str_len a) (all_dirs fs)"
proof -
  have "sorted (map (\<lambda>p. - int (str_len p)) (all_dirs fs))"
    unfolding all_dirs_def by (rule sorted_sort_key)
  then show ?thesis by (simp add: sorted_map)
qed

lemma step4_exact:
  "stat (fst (step4 fs)) p =
     (if strict_prefix docs_dir p \<and> trans_empty fs p then None else stat fs p)"
proof (cases "exists fs docs_dir")
  case False
  have "\<not> (strict_prefix docs_dir p \<and> trans_empty fs p)"
  proof
    assume a: "strict_prefix docs_dir p \<and> trans_empty fs p"
    then obtain r where "p = docs_dir @ r" by (auto simp: strict_prefix_def prefix_def)
    with False have "stat fs p = None" by (simp add: exists_stat stat_below_missing)
    with a show False by (simp add: trans_empty_def is_dir_def)
  qed
  with False show ?thesis by (auto simp: step4_def)
next
  case True
  have cl: "\<forall>y\<in>set (all_dirs fs). \<forall>q. strict_prefix y q \<and> exists fs q \<longrightarrow>
      q \<in> set (all_dirs fs) \<or> \<not> trans_empty fs q"
  proof (intro ballI allI impI)
    fix y q assume "y \<in> set (all_dirs fs)" and q: "strict_prefix y q \<and> exists fs q"
    then have "strict_prefix docs_dir y" by (simp add: all_dirs_set rglob_star_below)
    with q have "strict_prefix docs_dir q" by auto
    with q show "q \<in> set (all_dirs fs) \<or> \<not> trans_empty fs q"
      by (simp add: all_dirs_set rglob_star_complete)
  qed
  have nn: "[] \<notin> set (all_dirs fs)"
    using rglob_star_below[of "[]" fs docs_dir] by (auto simp: all_dirs_set)
  have "p \<in> set (all_dirs fs) \<and> trans_empty fs p \<longleftrightarrow> strict_prefix docs_dir p \<and> trans_empty fs p"
    using rglob_star_below[of p fs docs_dir] rglob_star_complete[of docs_dir p fs]
    by (auto simp: all_dirs_set trans_empty_def is_dir_def exists_stat)
  with prune_loop_exact[OF all_dirs_sorted cl nn, of 0 p] True show ?thesis
    by (simp add: step4_def Let_def)
qed

lemma all_dirs_children_first:
  assumes "i < j" "j < length (all_dirs fs)"
  shows "\<not> strict_prefix (all_dirs fs ! i) (all_dirs fs ! j)"
proof
  assume "strict_prefix (all_dirs fs ! i) (all_dirs fs ! j)"
  then have "str_len (all_dirs fs ! i) < str_len (all_dirs fs ! j)" by (rule str_len_strict)
  moreover have "str_len (all_dirs fs ! j) \<le> str_len (all_dirs fs ! i)"
    using all_dirs_sorted[of fs] assms by (simp add: sorted_wrt_iff_nth_less)
  ultimately show False by simp
qed

lemma walk_Nil_iff: "walk (Dir es) = [] \<longleftrightarrow> es = []"
  by auto

lemma rglob_star_empty:
  assumes "is_dir fs d"
  shows "rglob fs d pat_star = [] \<longleftrightarrow> dir_empty fs d"
proof -
  from assms obtain es where "lookup fs d = Some (Dir es)" by (auto simp: is_dir_lookup)
  then show ?thesis using walk_Nil_iff[of es]
    by (simp add: rglob_def pat_star_def dir_empty_def del: walk.simps)
qed

lemma step5_empty:
  assumes "is_dir fs docs_dir" "dir_empty fs docs_dir"
  shows "snd (step5 fs) = DocsRemoved \<and>
         (\<forall>q. stat (fst (step5 fs)) q = (if q = docs_dir then None else stat fs q))"
proof -
  have r: "os_rmdir fs docs_dir = Inr (put fs docs_dir None)"
    using assms by (simp add: os_rmdir_def is_dir_def docs_dir_def)
  have s: "step5 fs = (put fs docs_dir None, DocsRemoved)"
    using assms r rglob_star_empty[OF assms(1)] by (simp add: step5_def exists_stat is_dir_def)
  from os_rmdir_stat[OF r] s show ?thesis by simp
qed

lemma step5_nonempty:
  assumes "is_dir fs docs_dir" "\<not> dir_empty fs docs_dir"
  shows "step5 fs = (fs, StillContains (length (rglob fs docs_dir pat_star))) \<and>
         0 < length (rglob fs docs_dir pat_star)"
  using assms rglob_star_empty[OF assms(1)] by (simp add: step5_def exists_stat is_dir_def)


section \<open>Well-formed trees\<close>














section \<open>Facts about step 2\<close>













section \<open>Facts about step 3\<close>














section \<open>Facts about the steps of the run\<close>

lemma step1_eq:
  "step1 fs =
     (if exists fs new_panda_core then (fs, Some new_panda_core, UsingExisting)
      else (fs, None, NotFound))"
  by (simp add: step1_def old_panda_core_def new_panda_core_def)

lemma main_without_container:
  "\<not> exists fs new_panda_core \<Longrightarrow> main fs = (fs, Stopped NotFound)"
  by (simp add: main_def step1_eq)

lemma main_with_container:
  "exists fs new_panda_core \<Longrightarrow> \<exists>rep. snd (main fs) = Complete rep"
  by (simp add: main_def step1_eq Let_def)
















section \<open>Facts about the loop of step 3\<close>










text \<open>The list \<open>all_files\<close> of step 3.\<close>

abbreviation all_files :: "node \<Rightarrow> path list" where
  "all_files fs \<equiv> rglob fs docs_dir pat_md"


section \<open>The classifier is total\<close>

text \<open>
  Claim C1. The classifier is total: for every file below \<open>docs_dir\<close>, whatever its
  directories and its name, \<open>map_file_to_category\<close> raises nothing and returns one of the
  twelve (pairwise different) decorated category names, and where no rule matches it
  returns the Reference category.
\<close>

theorem classification_total:
  "length categories = 12 \<and> distinct categories \<and>
   (\<exists>c. map_file_to_category (docs @ dirs @ [file_name]) docs = Inr c \<and> c \<in> set categories \<and>
        (no_rule_matches (lower (name_of dirs)) (lower file_name) \<longrightarrow>
           c = subdir ''12_REFERENCE''))"
  using categories_twelve classify_in_categories classify_unmatched
  by (simp add: map_file_to_category_below)

text \<open>The file \<open>docs/misc.md\<close> matches no rule and falls into Reference.\<close>

theorem classification_total_witness:
  "no_rule_matches (lower (name_of [])) (lower ''misc.md'') \<and>
   map_file_to_category ([''docs''] @ [] @ [''misc.md'']) [''docs''] = Inr (subdir ''12_REFERENCE'') \<and>
   subdir ''12_REFERENCE'' \<in> set categories"
proof -
  have h: "no_rule_matches (lower (name_of [])) (lower ''misc.md'')"
    by (simp add: no_rule_matches_def name_of_def lower_def lower_char_def root_keywords_def)
  from classification_total[of "[''docs'']" "[]" "''misc.md''"] h show ?thesis by auto
qed

section \<open>Moves do not overwrite\<close>

definition with_report :: node where
  "with_report =
     Dir [(decorate box_vr ''PANDA_CORE'' box_vl,
             Dir [(decorate box_ur ''REFERENCE'' box_ul, Dir [(''report.md'', File ''old'')])]),
          (''docs'', Dir [(''x'', Dir [(''report.md'', File ''new'')])])]"

text \<open>
  Claim C3. A move never overwrites: the name a file is moved to does not exist before
  the move, the entry arrives there as it was at the source, and every regular file of
  the tree that is not the moved entry (or below it) is still at its path with its
  content afterwards, whether the move succeeded or failed.
\<close>

theorem never_overwrites:
  assumes "move_one pc fs file = (fs', out)"
  shows "(\<forall>p c. stat fs p = Some (F c) \<longrightarrow>
            stat fs' p = Some (F c) \<or> (is_moved out \<and> prefix file p \<and> stat fs' p = None)) \<and>
         (\<forall>t. out = Moved t \<longrightarrow> \<not> exists fs t \<and> stat fs' t = stat fs file)"
  using assms
proof (cases rule: move_one_cases)
  case (unchanged e)
  then show ?thesis by (metis option.distinct(1) outcome.distinct(1))
next
  case (moved cat fs1 t x)
  note st = mkdir_parents_stat[OF moved(3)]
  from moved(6,7) have ne: "file \<noteq> t" by (auto simp: os_rename_def exists_def split: option.splits)
  note rn = os_rename_stat[OF moved(6) ne]
  have nt: "stat fs1 t = None" using moved(7) by (simp add: exists_stat)
  then have nt0: "stat fs t = None" using st[of t] by auto
  have "stat fs1 file = stat fs file"
  proof -
    have "\<not> prefix file (pc @ [cat])"
      using rn moved(5) by (metis append.assoc append_Cons append_Nil prefixI prefix_order.trans)
    then show ?thesis using st[of "file"] by auto
  qed
  then have a: "stat fs' t = stat fs file" using rn by simp
  have b: "stat fs' p = Some (F c) \<or> (prefix file p \<and> stat fs' p = None)"
    if p: "stat fs p = Some (F c)" for p c
  proof -
    from p st[of p] have p1: "stat fs1 p = Some (F c)" by auto
    have "\<not> prefix t p"
    proof
      assume "prefix t p"
      then obtain r where "p = t @ r" by (rule prefixE_append)
      with stat_below_missing[OF nt, of r] p1 show False by simp
    qed
    with rn p1 show ?thesis by simp
  qed
  from a b nt0 moved(1) show ?thesis by (simp add: exists_stat)
qed

text \<open>
  \<open>docs/x/report.md\<close> goes to Reference, where a \<open>report.md\<close> exists: it becomes
  \<open>report_1.md\<close> and the old file keeps its content.
\<close>

theorem never_overwrites_witness:
  "move_one new_panda_core with_report [''docs'', ''x'', ''report.md''] =
     (fst (move_one new_panda_core with_report [''docs'', ''x'', ''report.md'']),
      Moved (new_panda_core @ [subdir ''12_REFERENCE'', ''report_1.md''])) \<and>
   stat with_report (new_panda_core @ [subdir ''12_REFERENCE'', ''report.md'']) = Some (F ''old'') \<and>
   stat (fst (move_one new_panda_core with_report [''docs'', ''x'', ''report.md'']))
     (new_panda_core @ [subdir ''12_REFERENCE'', ''report.md'']) = Some (F ''old'') \<and>
   stat (fst (move_one new_panda_core with_report [''docs'', ''x'', ''report.md'']))
     (new_panda_core @ [subdir ''12_REFERENCE'', ''report_1.md'']) = Some (F ''new'')"
proof -
  let ?f = "[''docs'', ''x'', ''report.md'']"
  let ?m = "move_one new_panda_core with_report ?f"
  have o: "snd ?m = Moved (new_panda_core @ [subdir ''12_REFERENCE'', ''report_1.md''])"
    by code_simp
  then have m: "?m = (fst ?m, Moved (new_panda_core @ [subdir ''12_REFERENCE'', ''report_1.md'']))"
    by (metis prod.collapse)
  have old: "stat with_report (new_panda_core @ [subdir ''12_REFERENCE'', ''report.md'']) = Some (F ''old'')"
    by code_simp
  have src: "stat with_report ?f = Some (F ''new'')" by code_simp
  have np: "\<not> prefix ?f (new_panda_core @ [subdir ''12_REFERENCE'', ''report.md''])"
    by (simp add: new_panda_core_def decorate_def)
  from never_overwrites[OF m] old np src show ?thesis using m by auto
qed

section \<open>The collision resolver\<close>

text \<open>
  The name \<open>move_one\<close> moves a file to: the loop entered with \<open>counter = 1\<close> and the
  desired name, with the stem and the suffix of that name.
\<close>

definition resolve_name :: "node \<Rightarrow> path \<Rightarrow> string \<Rightarrow> path" where
  "resolve_name fs target_dir name =
     probe fs target_dir (path_stem name) (path_suffix name) 1 (target_dir @ [name])"

definition dir1 :: node where
  "dir1 = Dir [(''ref'', Dir [(''report.md'', File ''a'')])]"

definition dir2 :: node where
  "dir2 = Dir [(''ref'', Dir [(''report.md'', File ''a''), (''report_1.md'', File ''b'')])]"

text \<open>
  Claim C4. The collision resolver returns a name that does not exist in the target
  directory: the desired name when that is free, and otherwise \<open>stem_k.ext\<close> for the
  smallest \<open>k \<ge> 1\<close> whose name is free, every smaller counter having been found taken.
\<close>

theorem collision_resolver:
  "\<not> exists fs (resolve_name fs target_dir name) \<and>
   (\<not> exists fs (target_dir @ [name]) \<longrightarrow> resolve_name fs target_dir name = target_dir @ [name]) \<and>
   (exists fs (target_dir @ [name]) \<longrightarrow>
      (\<exists>k\<ge>1. resolve_name fs target_dir name =
                 target_dir @ [path_stem name @ ''_'' @ str_nat k @ path_suffix name] \<and>
             (\<forall>j. 1 \<le> j \<and> j < k \<longrightarrow>
                exists fs (target_dir @ [path_stem name @ ''_'' @ str_nat j @ path_suffix name]))))"
  using probe_spec[of fs target_dir "path_stem name" "path_suffix name" 1 "target_dir @ [name]"]
  unfolding resolve_name_def candidate_def by simp

text \<open>
  \<open>report.md\<close> into a directory that holds \<open>report.md\<close> becomes \<open>report_1.md\<close>, the next
  one \<open>report_2.md\<close>, and a free name is kept.
\<close>

theorem collision_resolver_witness:
  "exists dir1 [''ref'', ''report.md''] \<and>
   resolve_name dir1 [''ref''] ''report.md'' = [''ref'', ''report_1.md''] \<and>
   \<not> exists dir1 [''ref'', ''report_1.md''] \<and>
   exists dir2 [''ref'', ''report.md''] \<and>
   resolve_name dir2 [''ref''] ''report.md'' = [''ref'', ''report_2.md''] \<and>
   \<not> exists dir2 [''ref'', ''report_2.md''] \<and>
   \<not> exists dir1 [''ref'', ''fresh.md''] \<and>
   resolve_name dir1 [''ref''] ''fresh.md'' = [''ref'', ''fresh.md'']"
proof -
  have e1: "exists dir1 [''ref'', ''report.md'']" by code_simp
  have e2: "exists dir2 [''ref'', ''report.md'']" by code_simp
  have f: "\<not> exists dir1 [''ref'', ''fresh.md'']" by code_simp
  have r1: "resolve_name dir1 [''ref''] ''report.md'' = [''ref'', ''report_1.md'']"
    by code_simp
  have r2: "resolve_name dir2 [''ref''] ''report.md'' = [''ref'', ''report_2.md'']"
    by code_simp
  have n1: "\<not> exists dir1 (resolve_name dir1 [''ref''] ''report.md'')"
    using collision_resolver[of dir1 "[''ref'']" "''report.md''"] by (rule conjunct1)
  have n2: "\<not> exists dir2 (resolve_name dir2 [''ref''] ''report.md'')"
    using collision_resolver[of dir2 "[''ref'']" "''report.md''"] by (rule conjunct1)
  have a: "resolve_name dir1 [''ref''] ''fresh.md'' = [''ref'', ''fresh.md'']"
    using collision_resolver[of dir1 "[''ref'']" "''fresh.md''"] f by simp
  from e1 e2 f r1 r2 n1 n2 a show ?thesis by simp
qed

section \<open>Pruning removes the transitively empty directories\<close>

definition tree_abc :: node where
  "tree_abc = Dir [(''docs'', Dir [(''a'', Dir [(''b'', Dir [(''c'', Dir [])])])])]"

definition tree_abd :: node where
  "tree_abd =
     Dir [(''docs'',
       Dir [(''a'', Dir [(''b'', Dir [(''c'', Dir []),
                                      (''d'', Dir [(''other.md'', File ''o'')])])])])]"

text \<open>
  Claim C5. Step 4 removes exactly the directories below \<open>docs_dir\<close> that are
  transitively empty and changes nothing else; it visits the paths by decreasing length
  of their string, so that no directory is visited before a path below it. Step 5 then
  removes \<open>docs_dir\<close> when it is an empty directory, and otherwise leaves the tree as it
  is and reports how many entries remain below it.
\<close>

theorem prune_exact:
  "(\<forall>p. stat (fst (step4 fs)) p =
        (if strict_prefix docs_dir p \<and> trans_empty fs p then None else stat fs p)) \<and>
   (\<forall>i j. i < j \<and> j < length (all_dirs fs) \<longrightarrow>
        \<not> strict_prefix (all_dirs fs ! i) (all_dirs fs ! j)) \<and>
   (is_dir fs docs_dir \<and> dir_empty fs docs_dir \<longrightarrow>
      snd (step5 fs) = DocsRemoved \<and>
      (\<forall>q. stat (fst (step5 fs)) q = (if q = docs_dir then None else stat fs q))) \<and>
   (is_dir fs docs_dir \<and> \<not> dir_empty fs docs_dir \<longrightarrow>
      step5 fs = (fs, StillContains (length (rglob fs docs_dir pat_star))) \<and>
      0 < length (rglob fs docs_dir pat_star))"
proof (intro conjI allI impI)
  fix p
  show "stat (fst (step4 fs)) p =
        (if strict_prefix docs_dir p \<and> trans_empty fs p then None else stat fs p)"
    by (rule step4_exact)
next
  fix i j assume "i < j \<and> j < length (all_dirs fs)"
  then show "\<not> strict_prefix (all_dirs fs ! i) (all_dirs fs ! j)"
    using all_dirs_children_first[of i j fs] by simp
next
  assume a: "is_dir fs docs_dir \<and> dir_empty fs docs_dir"
  then show "snd (step5 fs) = DocsRemoved" using step5_empty[of fs] by simp
  fix q
  from a show "stat (fst (step5 fs)) q = (if q = docs_dir then None else stat fs q)"
    using step5_empty[of fs] by simp
next
  assume a: "is_dir fs docs_dir \<and> \<not> dir_empty fs docs_dir"
  then show "step5 fs = (fs, StillContains (length (rglob fs docs_dir pat_star)))"
    using step5_nonempty[of fs] by simp
  from a show "0 < length (rglob fs docs_dir pat_star)"
    using step5_nonempty[of fs] by simp
qed

lemma trans_empty_code:
  "(case lookup fs p of Some n \<Rightarrow> no_files n | None \<Rightarrow> False) \<Longrightarrow> trans_empty fs p"
  by (cases "lookup fs p") (auto intro: trans_emptyI)

text \<open>
  With \<open>a/b/c\<close> left empty, \<open>c\<close>, \<open>b\<close> and \<open>a\<close> all go; with \<open>a/b/d/other.md\<close> beside
  it, only \<open>c\<close> goes and \<open>a/b\<close>, \<open>a\<close> and the file stay.
\<close>

theorem prune_exact_witness:
  "stat (fst (step4 tree_abc)) [''docs'', ''a'', ''b'', ''c''] = None \<and>
   stat (fst (step4 tree_abc)) [''docs'', ''a'', ''b''] = None \<and>
   stat (fst (step4 tree_abc)) [''docs'', ''a''] = None \<and>
   stat (fst (step4 tree_abc)) [''docs''] = Some D \<and>
   stat (fst (step4 tree_abd)) [''docs'', ''a'', ''b'', ''c''] = None \<and>
   stat (fst (step4 tree_abd)) [''docs'', ''a'', ''b''] = Some D \<and>
   stat (fst (step4 tree_abd)) [''docs'', ''a''] = Some D \<and>
   stat (fst (step4 tree_abd)) [''docs'', ''a'', ''b'', ''d'', ''other.md''] = Some (F ''o'') \<and>
   is_dir (Dir [(''docs'', Dir [])]) docs_dir \<and> dir_empty (Dir [(''docs'', Dir [])]) docs_dir \<and>
   snd (step5 (Dir [(''docs'', Dir [])])) = DocsRemoved \<and>
   stat (fst (step5 (Dir [(''docs'', Dir [])]))) docs_dir = None \<and>
   is_dir tree_abd docs_dir \<and> \<not> dir_empty tree_abd docs_dir \<and>
   step5 tree_abd = (tree_abd, StillContains (length (rglob tree_abd docs_dir pat_star)))"
proof -
  have sp: "strict_prefix docs_dir [''docs'', ''a'', ''b'', ''c'']"
    "strict_prefix docs_dir [''docs'', ''a'', ''b'']" "strict_prefix docs_dir [''docs'', ''a'']"
    "\<not> strict_prefix docs_dir [''docs'']"
    "strict_prefix docs_dir [''docs'', ''a'', ''b'', ''d'', ''other.md'']"
    by (simp_all add: docs_dir_def strict_prefix_def)
  have te: "trans_empty tree_abc [''docs'', ''a'', ''b'', ''c'']"
    "trans_empty tree_abc [''docs'', ''a'', ''b'']" "trans_empty tree_abc [''docs'', ''a'']"
    "trans_empty tree_abd [''docs'', ''a'', ''b'', ''c'']"
    by (rule trans_empty_code, simp add: tree_abc_def tree_abd_def)+
  have f: "stat tree_abd ([''docs'', ''a'', ''b''] @ [''d'', ''other.md'']) = Some (F ''o'')"
    "stat tree_abd ([''docs'', ''a''] @ [''b'', ''d'', ''other.md'']) = Some (F ''o'')"
    "stat tree_abd ([''docs'', ''a'', ''b'', ''d'', ''other.md''] @ []) = Some (F ''o'')"
    by (simp_all add: tree_abd_def stat_def kind_of_def)
  then have nte: "\<not> trans_empty tree_abd [''docs'', ''a'', ''b'']"
    "\<not> trans_empty tree_abd [''docs'', ''a'']"
    "\<not> trans_empty tree_abd [''docs'', ''a'', ''b'', ''d'', ''other.md'']"
    unfolding trans_empty_def by blast+
  have st: "stat tree_abc [''docs''] = Some D" "stat tree_abd [''docs'', ''a'', ''b''] = Some D"
    "stat tree_abd [''docs'', ''a''] = Some D"
    by (simp_all add: tree_abc_def tree_abd_def stat_def kind_of_def)
  have d: "is_dir (Dir [(''docs'', Dir [])]) docs_dir" "dir_empty (Dir [(''docs'', Dir [])]) docs_dir"
    "is_dir tree_abd docs_dir" "\<not> dir_empty tree_abd docs_dir"
    by (simp_all add: tree_abd_def is_dir_def stat_def kind_of_def dir_empty_def docs_dir_def)
  note a = prune_exact[of tree_abc] and b = prune_exact[of tree_abd]
    and c = prune_exact[of "Dir [(''docs'', Dir [])]"]
  from a sp te st have 1: "stat (fst (step4 tree_abc)) [''docs'', ''a'', ''b'', ''c''] = None"
    "stat (fst (step4 tree_abc)) [''docs'', ''a'', ''b''] = None"
    "stat (fst (step4 tree_abc)) [''docs'', ''a''] = None"
    "stat (fst (step4 tree_abc)) [''docs''] = Some D" by simp_all
  from b sp te nte st f have 2: "stat (fst (step4 tree_abd)) [''docs'', ''a'', ''b'', ''c''] = None"
    "stat (fst (step4 tree_abd)) [''docs'', ''a'', ''b''] = Some D"
    "stat (fst (step4 tree_abd)) [''docs'', ''a''] = Some D"
    "stat (fst (step4 tree_abd)) [''docs'', ''a'', ''b'', ''d'', ''other.md''] = Some (F ''o'')"
    by simp_all
  from c d(1,2) have 3: "snd (step5 (Dir [(''docs'', Dir [])])) = DocsRemoved"
    "stat (fst (step5 (Dir [(''docs'', Dir [])]))) docs_dir = None" by simp_all
  from b d(3,4) have 4:
    "step5 tree_abd = (tree_abd, StillContains (length (rglob tree_abd docs_dir pat_star)))"
    by simp
  from 1 2 3 4 d show ?thesis by simp
qed


section \<open>Failures of single files\<close>




section \<open>Which files are moved\<close>






section \<open>The container directory\<close>

definition with_container :: node where
  "with_container = Dir [(decorate box_vr ''PANDA_CORE'' box_vl, Dir [])]"

text \<open>
  Claim C9. The two constants of the container path are the same path, so step 1 never
  calls \<open>rename\<close>: it leaves the tree as it is and either goes on with the existing
  container or, where there is none, makes \<open>main\<close> return with the tree untouched.
\<close>

theorem container_never_renamed:
  "old_panda_core = new_panda_core \<and>
   fst (step1 fs) = fs \<and>
   snd (snd (step1 fs)) \<noteq> RenamedMain \<and>
   (\<forall>e. snd (snd (step1 fs)) \<noteq> RenameMainError e) \<and>
   (exists fs old_panda_core \<longrightarrow> snd (step1 fs) = (Some old_panda_core, UsingExisting)) \<and>
   (\<not> exists fs old_panda_core \<longrightarrow>
      snd (step1 fs) = (None, NotFound) \<and> main fs = (fs, Stopped NotFound))"
  by (simp add: step1_eq main_without_container old_panda_core_def new_panda_core_def)

theorem container_never_renamed_witness:
  "\<not> exists (Dir []) old_panda_core \<and> main (Dir []) = (Dir [], Stopped NotFound) \<and>
   exists with_container old_panda_core \<and>
   step1 with_container = (with_container, Some old_panda_core, UsingExisting)"
proof -
  have a: "\<not> exists (Dir []) old_panda_core"
    by (simp add: exists_def old_panda_core_def)
  have b: "exists with_container old_panda_core"
    by (simp add: exists_def old_panda_core_def with_container_def)
  from container_never_renamed[of "Dir []"] a
  have c: "main (Dir []) = (Dir [], Stopped NotFound)" by simp
  from container_never_renamed[of with_container] b
  have "fst (step1 with_container) = with_container"
    "snd (step1 with_container) = (Some old_panda_core, UsingExisting)" by simp_all
  then have d: "step1 with_container = (with_container, Some old_panda_core, UsingExisting)"
    by (metis prod.collapse)
  from a b c d show ?thesis by simp
qed

section \<open>The exit status\<close>

text \<open>
  Against claim C6 as stated: with no container directory at all the run stops at step 1,
  and the exit status is still 0.
\<close>

theorem exit_status_counterexample:
  "\<not> exists (Dir []) old_panda_core \<and> \<not> exists (Dir []) new_panda_core \<and>
   snd (main (Dir [])) = Stopped NotFound \<and> exit_status (Dir []) = 0"
  by (simp add: exit_status_def main_def step1_def exists_def old_panda_core_def
      new_panda_core_def)

text \<open>
  Claim C6, amended. The exit status is 0 whenever \<open>main\<close> returns: after a complete run
  with any number of per-item errors, and also when the container directory is missing,
  where the run stops before it changes anything and only reports that it found none.
\<close>

theorem exit_status_always_zero:
  "exit_status fs = 0 \<and>
   (\<not> exists fs new_panda_core \<longrightarrow> main fs = (fs, Stopped NotFound)) \<and>
   (exists fs new_panda_core \<longrightarrow> (\<exists>rep. snd (main fs) = Complete rep))"
proof -
  have "exit_status fs = 0"
    by (cases "snd (main fs)") (simp_all add: exit_status_def)
  then show ?thesis
    using main_without_container[of fs] main_with_container[of fs] by simp
qed

theorem exit_status_always_zero_witness:
  "\<not> exists (Dir []) new_panda_core \<and> exit_status (Dir []) = 0 \<and>
   main (Dir []) = (Dir [], Stopped NotFound) \<and>
   exists with_container new_panda_core \<and> (\<exists>rep. snd (main with_container) = Complete rep)"
proof -
  have a: "\<not> exists (Dir []) new_panda_core"
    by (simp add: exists_def new_panda_core_def)
  have b: "exists with_container new_panda_core"
    by (simp add: exists_def new_panda_core_def with_container_def)
  from exit_status_always_zero[of "Dir []"] a
  have c: "exit_status (Dir []) = 0 \<and> main (Dir []) = (Dir [], Stopped NotFound)" by simp
  from exit_status_always_zero[of with_container] b
  have d: "\<exists>rep. snd (main with_container) = Complete rep" by simp
  from a b c d show ?thesis by simp
qed

section \<open>Pruning keeps the files\<close>

lemma step5_keeps_files:
  "stat (fst (step5 fs)) p = stat fs p \<or> (stat fs p = Some D \<and> stat (fst (step5 fs)) p = None)"
proof (cases "is_dir fs docs_dir \<and> dir_empty fs docs_dir")
  case True
  with step5_empty[of fs] show ?thesis by (auto simp: is_dir_def)
next
  case False
  have "fst (step5 fs) = fs"
  proof (cases "os_rmdir fs docs_dir")
    case (Inl e)
    then show ?thesis by (simp add: step5_def Let_def)
  next
    case (Inr fs')
    then have "is_dir fs docs_dir \<and> dir_empty fs docs_dir"
      by (auto simp: os_rmdir_def is_dir_def split: option.splits kind.splits if_splits)
    with False show ?thesis by simp
  qed
  then show ?thesis by simp
qed

text \<open>
  Claim C10. Pruning destroys no document: steps 4 and 5 keep every regular file at its
  path with its content and create none, whatever they remove was a directory, and one
  pruning step changes the tree only by removing a directory that it found to be an
  empty directory at that moment.
\<close>

theorem prune_keeps_files:
  "(\<forall>p c. stat (fst (step4 fs)) p = Some (F c) \<longleftrightarrow> stat fs p = Some (F c)) \<and>
   (\<forall>p c. stat (fst (step5 fs)) p = Some (F c) \<longleftrightarrow> stat fs p = Some (F c)) \<and>
   (\<forall>p. stat (fst (step4 fs)) p \<noteq> stat fs p \<longrightarrow>
        stat fs p = Some D \<and> stat (fst (step4 fs)) p = None) \<and>
   (\<forall>k d. fst (prune_one (fs, k) d) \<noteq> fs \<longrightarrow>
        is_dir fs d \<and> dir_empty fs d \<and>
        (\<forall>q. stat (fst (prune_one (fs, k) d)) q = (if q = d then None else stat fs q)))"
proof (intro conjI allI impI)
  fix p c
  have "stat (fst (step4 fs)) p = stat fs p \<or>
        (stat fs p = Some D \<and> stat (fst (step4 fs)) p = None)"
    using prune_loop_only_dirs[of "(fs, 0)" "all_dirs fs" p]
    by (auto simp: step4_def Let_def)
  then show "stat (fst (step4 fs)) p = Some (F c) \<longleftrightarrow> stat fs p = Some (F c)" by auto
  show "stat (fst (step5 fs)) p = Some (F c) \<longleftrightarrow> stat fs p = Some (F c)"
    using step5_keeps_files[of fs p] by auto
next
  fix p assume "stat (fst (step4 fs)) p \<noteq> stat fs p"
  moreover have "stat (fst (step4 fs)) p = stat fs p \<or>
        (stat fs p = Some D \<and> stat (fst (step4 fs)) p = None)"
    using prune_loop_only_dirs[of "(fs, 0)" "all_dirs fs" p]
    by (auto simp: step4_def Let_def)
  ultimately show "stat fs p = Some D" "stat (fst (step4 fs)) p = None" by auto
next
  fix k d assume a: "fst (prune_one (fs, k) d) \<noteq> fs"
  obtain fs' k' where p: "prune_one (fs, k) d = (fs', k')" by force
  from p have "is_dir fs d \<and> dir_empty fs d \<and>
        (\<forall>q. stat fs' q = (if q = d then None else stat fs q))"
  proof (cases rule: prune_one_cases)
    case kept
    with a p show ?thesis by simp
  next
    case removed
    then show ?thesis by simp
  qed
  with p show "is_dir fs d" "dir_empty fs d"
    "\<And>q. stat (fst (prune_one (fs, k) d)) q = (if q = d then None else stat fs q)" by auto
qed

text \<open>
  In the tree with \<open>a/b/d/other.md\<close> the file survives step 4; the step for \<open>a/b/d\<close>
  changes nothing, the step for the empty \<open>a/b/c\<close> removes it.
\<close>

theorem prune_keeps_files_witness:
  "stat tree_abd [''docs'', ''a'', ''b'', ''d'', ''other.md''] = Some (F ''o'') \<and>
   stat (fst (step4 tree_abd)) [''docs'', ''a'', ''b'', ''d'', ''other.md''] = Some (F ''o'') \<and>
   fst (prune_one (tree_abd, 0) [''docs'', ''a'', ''b'', ''d'']) = tree_abd \<and>
   fst (prune_one (tree_abd, 0) [''docs'', ''a'', ''b'', ''c'']) \<noteq> tree_abd \<and>
   dir_empty tree_abd [''docs'', ''a'', ''b'', ''c'']"
proof -
  have f: "stat tree_abd [''docs'', ''a'', ''b'', ''d'', ''other.md''] = Some (F ''o'')"
    by (simp add: tree_abd_def stat_def kind_of_def)
  have k: "fst (prune_one (tree_abd, 0) [''docs'', ''a'', ''b'', ''d'']) = tree_abd"
    by (simp add: prune_one_def tree_abd_def is_dir_def stat_def kind_of_def dir_empty_def)
  have r: "fst (prune_one (tree_abd, 0) [''docs'', ''a'', ''b'', ''c'']) \<noteq> tree_abd"
    by (simp add: prune_one_def tree_abd_def is_dir_def stat_def kind_of_def dir_empty_def
        os_rmdir_def)
  from prune_keeps_files[of tree_abd] f r k show ?thesis by simp
qed

section \<open>Running twice\<close>







end
